theory Spec2Isabelle
  imports Main "HOL-Library.AList" "HOL-Library.Sublist"
begin

section \<open>Strings\<close>

text \<open>
  A Python \<open>str\<close> is modelled as a \<open>string\<close> holding its UTF-8 bytes. Concatenation,
  \<open>str.join\<close> and the replacement of one ASCII character by another act on the bytes
  as they act on the code points. The Chinese literals of \<open>main.py\<close> are written out as
  their bytes.
\<close>

text \<open>\<open>sep.join(xs)\<close>\<close>

fun join :: "string \<Rightarrow> string list \<Rightarrow> string" where
  "join sep [] = []"
| "join sep [x] = x"
| "join sep (x # y # ys) = x @ sep @ join sep (y # ys)"

text \<open>The separator \<open>"\\n"\<close> of \<open>process_message\<close>.\<close>

definition newline :: string where
  "newline = [CHR 0x0A]"

text \<open>The literal of line 546 (the message of the error raised when the system is not initialised).\<close>

definition not_initialized_text :: string where
  "not_initialized_text =
     [CHR 0xE7, CHR 0xB3, CHR 0xBB, CHR 0xE7, CHR 0xBB, CHR 0x9F, CHR 0xE6, CHR 0x9C, CHR 0xAA,
      CHR 0xE5, CHR 0x88, CHR 0x9D, CHR 0xE5, CHR 0xA7, CHR 0x8B, CHR 0xE5, CHR 0x8C, CHR 0x96]"

text \<open>The prefix of line 580, up to and including the colon and the blank.\<close>

definition process_failed_text :: string where
  "process_failed_text =
     [CHR 0xE5, CHR 0xA4, CHR 0x84, CHR 0xE7, CHR 0x90, CHR 0x86, CHR 0xE6, CHR 0xB6, CHR 0x88,
      CHR 0xE6, CHR 0x81, CHR 0xAF, CHR 0xE5, CHR 0xA4, CHR 0xB1, CHR 0xE8, CHR 0xB4, CHR 0xA5,
      CHR 0x3A, CHR 0x20]"

text \<open>The prefix of line 596, up to and including the colon and the blank.\<close>

definition response_failed_text :: string where
  "response_failed_text =
     [CHR 0xE8, CHR 0x8E, CHR 0xB7, CHR 0xE5, CHR 0x8F, CHR 0x96, CHR 0xE5, CHR 0x8A, CHR 0xA9,
      CHR 0xE6, CHR 0x89, CHR 0x8B, CHR 0xE5, CHR 0x93, CHR 0x8D, CHR 0xE5, CHR 0xBA, CHR 0x94,
      CHR 0xE5, CHR 0xA4, CHR 0xB1, CHR 0xE8, CHR 0xB4, CHR 0xA5, CHR 0x3A, CHR 0x20]"


section \<open>Data model\<close>

datatype SystemState = UNINITIALIZED | INITIALIZED | ERROR

text \<open>
  The dataclass \<open>Assistant\<close>. The field \<open>id\<close> is written \<open>id'\<close> here. The defaults of
  \<open>created_at\<close> and \<open>modified_at\<close> are evaluated once, when the class is defined.
\<close>

record Assistant =
  id' :: string
  name :: string
  role :: string
  prompt :: string
  created_at :: string
  modified_at :: string

text \<open>
  \<open>AssistantManager\<close>: the dict \<open>self.assistants\<close> in its insertion order, and beside it
  what the file \<open>config.yaml\<close> holds under the key \<open>assistants\<close> (\<open>None\<close> when it holds
  no such key).
\<close>

record AssistantManager =
  assistants :: "(string \<times> Assistant) list"
  saved_assistants :: "Assistant list option"

text \<open>
  The dataclass \<open>Message\<close>. Its default \<open>timestamp\<close> is evaluated once, when the class
  is defined, so every message built without a timestamp carries that one value.
\<close>

record Message =
  role :: string
  content :: string
  timestamp :: string

text \<open>
  Objects that the code shares and changes in place live at references: the
  \<open>WorkflowStep\<close> objects and the Python lists that hold them.
\<close>

type_synonym ref = nat

text \<open>The dataclass \<open>Workflow\<close>; \<open>steps\<close> refers to a list of references to steps.\<close>

record Workflow =
  name :: string
  steps :: ref
  description :: string
  created_at :: string
  modified_at :: string

text \<open>The dataclass \<open>WorkflowStep\<close>.\<close>

record WorkflowStep =
  assistants :: "string list"
  is_parallel :: bool
  step_id :: string

text \<open>The exception class \<open>APIError\<close>; \<open>str\<close> reads its message.\<close>

datatype APIError = APIError string

fun str :: "APIError \<Rightarrow> string" where
  "str (APIError m) = m"


section \<open>The assistant store\<close>

text \<open>\<open>s.replace(old, new)\<close> for two strings of one ASCII character each.\<close>

definition replace_char :: "char \<Rightarrow> char \<Rightarrow> string \<Rightarrow> string" where
  "replace_char old new s = map (\<lambda>c. if c = old then new else c) s"

text \<open>
  \<open>str.lower\<close> is Python's own and follows the Unicode tables, so the store takes it as a
  parameter \<open>lower\<close>. On ASCII text it is \<open>ascii_lower\<close>.
\<close>

definition ascii_lower :: "string \<Rightarrow> string" where
  "ascii_lower s =
     map (\<lambda>c. if 65 \<le> (of_char c :: nat) \<and> (of_char c :: nat) \<le> 90
              then char_of ((of_char c :: nat) + 32) else c) s"

text \<open>
  \<open>AssistantManager.save_assistants\<close>: the whole store is written out. \<open>writable\<close> says
  whether the write takes effect; a failure is logged and no caller looks at the result.
\<close>

definition save_assistants :: "bool \<Rightarrow> AssistantManager \<Rightarrow> AssistantManager" where
  "save_assistants writable m =
     (if writable then m\<lparr>saved_assistants := Some (map snd (AssistantManager.assistants m))\<rparr> else m)"

text \<open>
  \<open>AssistantManager.add_assistant\<close>. \<open>class_time\<close> is the default of \<open>created_at\<close> and
  \<open>modified_at\<close>. The \<open>AssistantError\<close> raised for an id that is present is caught
  inside and becomes the result \<open>False\<close>.
\<close>

definition add_assistant ::
  "(string \<Rightarrow> string) \<Rightarrow> string \<Rightarrow> bool \<Rightarrow> AssistantManager \<Rightarrow> string \<Rightarrow> string \<Rightarrow> string
     \<Rightarrow> bool \<times> AssistantManager" where
  "add_assistant lower class_time writable m nm rl pr =
     (let assistant_id = replace_char (CHR '' '') (CHR ''_'') (lower nm) in
      if map_of (AssistantManager.assistants m) assistant_id \<noteq> None then (False, m)
      else
        let assistant = \<lparr>id' = assistant_id, Assistant.name = nm, Assistant.role = rl, prompt = pr,
                           Assistant.created_at = class_time, Assistant.modified_at = class_time\<rparr>
        in (True,
            save_assistants writable
              (m\<lparr>AssistantManager.assistants :=
                    AList.update assistant_id assistant (AssistantManager.assistants m)\<rparr>)))"





text \<open>\<open>AssistantManager.get_assistant\<close>\<close>

definition get_assistant :: "AssistantManager \<Rightarrow> string \<Rightarrow> Assistant option" where
  "get_assistant m assistant_id = map_of (AssistantManager.assistants m) assistant_id"



section \<open>The workflow store\<close>

subsection \<open>Objects\<close>

text \<open>
  What \<open>json.load\<close> returns and \<open>json.dump\<close> takes. An object is the list of the items of
  the parsed dict, in order and with distinct keys. Of the numbers only the integers are
  kept; the store writes no number. Writing a value with \<open>json.dump\<close> and reading it with
  \<open>json.load\<close> gives the value back, so the file is modelled by the value it holds.
\<close>

datatype json =
    JNull
  | JBool bool
  | JNumber int
  | JString string
  | JArray "json list"
  | JObject "(string \<times> json) list"

text \<open>
  \<open>WorkflowManager\<close>: the dict \<open>self.workflows\<close> in its insertion order and the reference
  \<open>self.current_workflow\<close> to the list that is the draft. Beside them the objects the
  references lead to (\<open>list_objects\<close> for the Python lists of steps, \<open>step_objects\<close> for
  the \<open>WorkflowStep\<close> objects, \<open>next_ref\<close> the first reference not yet given out) and the
  parsed content of the file \<open>workflows.json\<close> (\<open>None\<close> when there is no such file; a
  file that does not parse raises in \<open>json.load\<close>, which \<open>load_workflows\<close> catches, so it
  loads as no file does).
\<close>

record WorkflowManager =
  workflows :: "(string \<times> Workflow) list"
  current_workflow :: ref
  list_objects :: "ref \<Rightarrow> ref list option"
  step_objects :: "ref \<Rightarrow> WorkflowStep option"
  next_ref :: ref
  workflow_file :: "json option"

text \<open>
  Reading through a reference. In Python a reference always has its object; the values
  given here for a reference without one are never read in a state the code builds.
\<close>

definition list_at :: "WorkflowManager \<Rightarrow> ref \<Rightarrow> ref list" where
  "list_at s r = (case list_objects s r of None \<Rightarrow> [] | Some refs \<Rightarrow> refs)"

definition step_at :: "WorkflowManager \<Rightarrow> ref \<Rightarrow> WorkflowStep" where
  "step_at s r =
     (case step_objects s r of
        None \<Rightarrow> \<lparr>assistants = [], is_parallel = False, step_id = []\<rparr>
      | Some step \<Rightarrow> step)"

text \<open>The steps of a workflow as values: what \<open>workflow.steps\<close> shows when it is read.\<close>

definition workflow_steps :: "WorkflowManager \<Rightarrow> Workflow \<Rightarrow> WorkflowStep list" where
  "workflow_steps s w = map (step_at s) (list_at s (steps w))"

text \<open>A new list object: a list display, a comprehension or \<open>list.copy()\<close>.\<close>

definition new_list_object :: "ref list \<Rightarrow> WorkflowManager \<Rightarrow> ref \<times> WorkflowManager" where
  "new_list_object refs s =
     (next_ref s,
      s\<lparr>list_objects := (list_objects s)(next_ref s \<mapsto> refs), next_ref := Suc (next_ref s)\<rparr>)"

text \<open>
  \<open>WorkflowStep(assistants=a, is_parallel=p, step_id=i)\<close> with its \<open>__post_init__\<close>: an
  empty \<open>step_id\<close> is replaced by the time of the call. \<open>clock r\<close> is the reading of the
  clock when the object at reference \<open>r\<close> is made.
\<close>

definition new_step_object ::
  "(ref \<Rightarrow> string) \<Rightarrow> string list \<Rightarrow> bool \<Rightarrow> string \<Rightarrow> WorkflowManager \<Rightarrow> ref \<times> WorkflowManager" where
  "new_step_object clock a p i s =
     (next_ref s,
      s\<lparr>step_objects := (step_objects s)(next_ref s \<mapsto>
             \<lparr>assistants = a, is_parallel = p, step_id = (if i = [] then clock (next_ref s) else i)\<rparr>),
        next_ref := Suc (next_ref s)\<rparr>)"


subsection \<open>Saving\<close>

text \<open>\<open>asdict(step)\<close>\<close>

definition asdict_step :: "WorkflowStep \<Rightarrow> json" where
  "asdict_step step =
     JObject [(''assistants'', JArray (map JString (assistants step))),
              (''is_parallel'', JBool (is_parallel step)),
              (''step_id'', JString (step_id step))]"

text \<open>\<open>Workflow.to_dict\<close>\<close>

definition to_dict :: "WorkflowManager \<Rightarrow> Workflow \<Rightarrow> json" where
  "to_dict s w =
     JObject [(''name'', JString (name w)),
              (''steps'', JArray (map asdict_step (workflow_steps s w))),
              (''description'', JString (description w)),
              (''created_at'', JString (created_at w)),
              (''modified_at'', JString (modified_at w))]"

text \<open>The dict of line 433: the persisted form of the store.\<close>

definition workflows_data :: "WorkflowManager \<Rightarrow> json" where
  "workflows_data s = JObject (map (\<lambda>(k, w). (k, to_dict s w)) (workflows s))"

text \<open>
  \<open>WorkflowManager.save_workflows\<close>. \<open>writable\<close> says whether the file can be opened for
  writing; when it cannot, the exception is caught and the result is \<open>False\<close>.
\<close>

definition save_workflows :: "bool \<Rightarrow> WorkflowManager \<Rightarrow> bool \<times> WorkflowManager" where
  "save_workflows writable s =
     (if writable then (True, s\<lparr>workflow_file := Some (workflows_data s)\<rparr>) else (False, s))"


subsection \<open>The draft\<close>

text \<open>
  \<open>WorkflowManager.add_step\<close>. The new step is appended to the list object of the draft,
  in place.
\<close>

definition add_step ::
  "(ref \<Rightarrow> string) \<Rightarrow> WorkflowManager \<Rightarrow> string list \<Rightarrow> bool \<Rightarrow> bool \<times> WorkflowManager" where
  "add_step clock s selected par =
     (if selected = [] then (False, s)
      else if filter (\<lambda>a. a \<noteq> []) selected = [] then (False, s)
      else
        (case new_step_object clock (filter (\<lambda>a. a \<noteq> []) selected) par [] s of
           (step, s1) \<Rightarrow>
             (True,
              s1\<lparr>list_objects := (list_objects s1)(current_workflow s1 \<mapsto>
                     list_at s1 (current_workflow s1) @ [step])\<rparr>)))"

text \<open>
  \<open>WorkflowManager.save_current_workflow\<close>. \<open>class_time\<close> is the default of \<open>created_at\<close>
  and \<open>modified_at\<close> of \<open>Workflow\<close>. The result of \<open>save_workflows\<close> is not looked at.
\<close>

definition save_current_workflow ::
  "string \<Rightarrow> bool \<Rightarrow> WorkflowManager \<Rightarrow> string \<Rightarrow> string \<Rightarrow> bool \<times> WorkflowManager" where
  "save_current_workflow class_time writable s nm descr =
     (if nm = [] \<or> list_at s (current_workflow s) = [] then (False, s)
      else
        (case new_list_object (list_at s (current_workflow s)) s of
           (copy, s1) \<Rightarrow>
             (True,
              snd (save_workflows writable
                     (s1\<lparr>workflows :=
                           AList.update nm
                             \<lparr>name = nm, steps = copy, description = descr,
                              created_at = class_time, modified_at = class_time\<rparr>
                             (workflows s1)\<rparr>)))))"

text \<open>\<open>WorkflowManager.load_workflow\<close>: the draft becomes a new list with the same elements.\<close>

definition load_workflow :: "WorkflowManager \<Rightarrow> string \<Rightarrow> bool \<times> WorkflowManager" where
  "load_workflow s nm =
     (case map_of (workflows s) nm of
        None \<Rightarrow> (False, s)
      | Some w \<Rightarrow>
          (case new_list_object (list_at s (steps w)) s of
             (copy, s1) \<Rightarrow> (True, s1\<lparr>current_workflow := copy\<rparr>)))"

text \<open>\<open>WorkflowManager.clear_current_workflow\<close>: the draft becomes a new empty list.\<close>

definition clear_current_workflow :: "WorkflowManager \<Rightarrow> WorkflowManager" where
  "clear_current_workflow s =
     (case new_list_object [] s of (cleared, s1) \<Rightarrow> s1\<lparr>current_workflow := cleared\<rparr>)"

text \<open>
  No method of \<open>main.py\<close> changes a step once it is made. The specification speaks of
  changing a step that the draft contains all the same, so here is the assignment
  \<open>current_workflow[i].is_parallel = b\<close> on the dataclass, which is not frozen. An index
  outside the list raises and changes nothing.
\<close>

definition set_is_parallel :: "nat \<Rightarrow> bool \<Rightarrow> WorkflowManager \<Rightarrow> WorkflowManager" where
  "set_is_parallel i b s =
     (if i < length (list_at s (current_workflow s)) then
        s\<lparr>step_objects := (step_objects s)(list_at s (current_workflow s) ! i \<mapsto>
              (step_at s (list_at s (current_workflow s) ! i))\<lparr>is_parallel := b\<rparr>)\<rparr>
      else s)"

text \<open>The changes of the draft that the store offers, and a sequence of them.\<close>

datatype draft_change = AddStep "string list" bool | ClearDraft

fun change_draft :: "(ref \<Rightarrow> string) \<Rightarrow> draft_change \<Rightarrow> WorkflowManager \<Rightarrow> WorkflowManager" where
  "change_draft clock (AddStep selected par) s = snd (add_step clock s selected par)"
| "change_draft clock ClearDraft s = clear_current_workflow s"

fun change_draft_all :: "(ref \<Rightarrow> string) \<Rightarrow> draft_change list \<Rightarrow> WorkflowManager \<Rightarrow> WorkflowManager" where
  "change_draft_all clock [] s = s"
| "change_draft_all clock (c # cs) s = change_draft_all clock cs (change_draft clock c s)"


subsection \<open>Loading\<close>

text \<open>
  The records are typed, so reading the parsed file into them checks the types on the
  way: a string where the code expects a string, a list for \<open>steps\<close>, a list of strings
  for \<open>assistants\<close>, a boolean for \<open>is_parallel\<close>. Python would take a value of another
  type as it is; the load of the model stops there as it stops at an exception. What
  \<open>save_workflows\<close> writes has the types the code expects.
\<close>

fun json_string :: "json \<Rightarrow> string option" where
  "json_string (JString v) = Some v"
| "json_string j = None"

text \<open>\<open>d.get(key, "")\<close>\<close>

definition get_or_empty :: "(string \<times> json) list \<Rightarrow> string \<Rightarrow> string option" where
  "get_or_empty items key = (case map_of items key of None \<Rightarrow> Some [] | Some j \<Rightarrow> json_string j)"

text \<open>
  The arguments of \<open>WorkflowStep(**step)\<close>: \<open>step\<close> must be a dict whose keys are among
  the three field names, with \<open>assistants\<close> and \<open>is_parallel\<close> present; \<open>step_id\<close> defaults
  to the empty string. Anything else raises \<open>TypeError\<close>.
\<close>

definition decode_step :: "json \<Rightarrow> (string list \<times> bool \<times> string) option" where
  "decode_step j =
     (case j of
        JObject items \<Rightarrow>
          (if \<not> list_all (\<lambda>key. key \<in> set [''assistants'', ''is_parallel'', ''step_id'']) (map fst items)
           then None
           else
             (case (map_of items ''assistants'', map_of items ''is_parallel'') of
                (Some (JArray a), Some (JBool p)) \<Rightarrow>
                  (case (those (map json_string a), get_or_empty items ''step_id'') of
                     (Some ids, Some i) \<Rightarrow> Some (ids, p, i)
                   | other \<Rightarrow> None)
              | other \<Rightarrow> None))
      | other \<Rightarrow> None)"

text \<open>
  The arguments of \<open>Workflow(...)\<close> at lines 418 to 424: \<open>workflow_data['name']\<close> and
  \<open>workflow_data['steps']\<close> must be there, the three other keys default to the empty
  string.
\<close>

definition decode_workflow ::
  "json \<Rightarrow> (string \<times> (string list \<times> bool \<times> string) list \<times> string \<times> string \<times> string) option" where
  "decode_workflow j =
     (case j of
        JObject items \<Rightarrow>
          (case (map_of items ''name'', map_of items ''steps'') of
             (Some (JString nm), Some (JArray step_data)) \<Rightarrow>
               (case (those (map decode_step step_data), get_or_empty items ''description'',
                      get_or_empty items ''created_at'', get_or_empty items ''modified_at'') of
                  (Some args, Some d, Some c, Some m) \<Rightarrow> Some (nm, args, d, c, m)
                | other \<Rightarrow> None)
           | other \<Rightarrow> None)
      | other \<Rightarrow> None)"

text \<open>The list comprehension of line 420: one new step object for each entry.\<close>

fun new_step_objects ::
  "(ref \<Rightarrow> string) \<Rightarrow> (string list \<times> bool \<times> string) list \<Rightarrow> WorkflowManager \<Rightarrow> ref list \<times> WorkflowManager" where
  "new_step_objects clock [] s = ([], s)"
| "new_step_objects clock ((a, p, i) # rest) s =
     (case new_step_object clock a p i s of
        (r, s1) \<Rightarrow> (case new_step_objects clock rest s1 of (rs, s2) \<Rightarrow> (r # rs, s2)))"

text \<open>
  The loop of lines 417 to 425 over the values of the parsed dict. An exception ends the
  loop and is caught outside it, so the workflows loaded before it stay. The step objects
  made for an entry before it raises are referred to by nothing and are left out here.
\<close>

fun load_entries :: "(ref \<Rightarrow> string) \<Rightarrow> json list \<Rightarrow> WorkflowManager \<Rightarrow> WorkflowManager" where
  "load_entries clock [] s = s"
| "load_entries clock (workflow_data # rest) s =
     (case decode_workflow workflow_data of
        None \<Rightarrow> s
      | Some (nm, args, d, c, m) \<Rightarrow>
          (case new_step_objects clock args s of
             (refs, s1) \<Rightarrow>
               (case new_list_object refs s1 of
                  (lst, s2) \<Rightarrow>
                    load_entries clock rest
                      (s2\<lparr>workflows :=
                            AList.update nm
                              \<lparr>name = nm, steps = lst, description = d, created_at = c, modified_at = m\<rparr>
                              (workflows s2)\<rparr>))))"

text \<open>
  \<open>WorkflowManager.load_workflows\<close>: nothing happens without the file; a parsed value
  that is no dict has no \<open>values()\<close>, which raises.
\<close>

definition load_workflows :: "(ref \<Rightarrow> string) \<Rightarrow> WorkflowManager \<Rightarrow> WorkflowManager" where
  "load_workflows clock s =
     (case workflow_file s of
        None \<Rightarrow> s
      | Some (JObject items) \<Rightarrow> load_entries clock (map snd items) s
      | Some other \<Rightarrow> s)"

text \<open>\<open>WorkflowManager.__init__\<close> in a process that finds the file with the content \<open>file\<close>.\<close>

definition init_WorkflowManager :: "(ref \<Rightarrow> string) \<Rightarrow> json option \<Rightarrow> WorkflowManager" where
  "init_WorkflowManager clock file =
     load_workflows clock
       \<lparr>workflows = [], current_workflow = 0, list_objects = Map.empty(0 \<mapsto> []),
        step_objects = Map.empty, next_ref = Suc 0, workflow_file = file\<rparr>"


subsection \<open>Views and invariants of the store\<close>

text \<open>
  What the round trip is to reproduce: the names of the workflows and for each of them
  its steps in order, each with its kind and its list of assistant ids.
\<close>

definition store_view :: "WorkflowManager \<Rightarrow> (string \<times> (bool \<times> string list) list) list" where
  "store_view s =
     map (\<lambda>(k, w). (k, map (\<lambda>step. (is_parallel step, assistants step)) (workflow_steps s w)))
       (workflows s)"

text \<open>
  The dict is keyed by the names of its workflows: every method that stores a workflow
  stores it under its own name. As a Python dict it has no key twice.
\<close>

definition keyed_by_name :: "WorkflowManager \<Rightarrow> bool" where
  "keyed_by_name s =
     (distinct (map fst (workflows s)) \<and> list_all (\<lambda>(k, w). name w = k) (workflows s))"

text \<open>
  Every reference that a stored workflow holds, and every reference in its list, has been
  given out, and so have the reference of the draft and the references in the draft.
\<close>

definition refs_given_out :: "WorkflowManager \<Rightarrow> bool" where
  "refs_given_out s =
     (current_workflow s < next_ref s \<and>
      list_all (\<lambda>r. r < next_ref s) (list_at s (current_workflow s)) \<and>
      list_all (\<lambda>(k, w). steps w < next_ref s \<and> list_all (\<lambda>r. r < next_ref s) (list_at s (steps w)))
        (workflows s))"

text \<open>A stored workflow as it reads: its fields and the values of its steps.\<close>

definition stored_workflow ::
  "WorkflowManager \<Rightarrow> string \<Rightarrow> (string \<times> WorkflowStep list \<times> string \<times> string \<times> string) option" where
  "stored_workflow s nm =
     (case map_of (workflows s) nm of
        None \<Rightarrow> None
      | Some w \<Rightarrow> Some (name w, workflow_steps s w, description w, created_at w, modified_at w))"

text \<open>\<open>t\<close> holds every object of \<open>s\<close> as \<open>s\<close> holds it.\<close>

definition keeps_objects :: "WorkflowManager \<Rightarrow> WorkflowManager \<Rightarrow> bool" where
  "keeps_objects s t =
     (\<forall>r<next_ref s. list_objects t r = list_objects s r \<and> step_objects t r = step_objects s r)"

text \<open>
  \<open>t\<close> has the stored workflows of \<open>s\<close> and its objects, and its draft is a list made
  after \<open>s\<close>.
\<close>

definition draft_apart :: "WorkflowManager \<Rightarrow> WorkflowManager \<Rightarrow> bool" where
  "draft_apart s t =
     (workflows t = workflows s \<and>
      next_ref s \<le> current_workflow t \<and> current_workflow t < next_ref t \<and>
      keeps_objects s t)"

text \<open>
  The states of the store that the code builds: the state after \<open>__init__\<close>, whatever the
  file holds, and the states that the methods of \<open>WorkflowManager\<close> lead to from there.
\<close>

inductive reachable :: "WorkflowManager \<Rightarrow> bool" where
  at_start: "reachable (init_WorkflowManager clock file)"
| after_add_step: "reachable s \<Longrightarrow> reachable (snd (add_step clock s selected par))"
| after_save_current: "reachable s \<Longrightarrow> reachable (snd (save_current_workflow class_time writable s nm descr))"
| after_load: "reachable s \<Longrightarrow> reachable (snd (load_workflow s nm))"
| after_clear: "reachable s \<Longrightarrow> reachable (clear_current_workflow s)"
| after_save: "reachable s \<Longrightarrow> reachable (snd (save_workflows writable s))"


subsection \<open>An example store\<close>

text \<open>
  The store after \<open>add_step(["a", "b"], False)\<close> and \<open>save_current_workflow("W", "demo")\<close>
  in a process that found no file.
\<close>

definition demo_store :: WorkflowManager where
  "demo_store =
     snd (save_current_workflow ''t0'' True
            (snd (add_step (\<lambda>r. ''c'') (init_WorkflowManager (\<lambda>r. ''c'') None) [''a'', ''b''] False))
            ''W'' ''demo'')"


section \<open>The completion backend\<close>

text \<open>
  The keyword arguments of \<open>client.chat.completions.create\<close>: the model and the list of
  messages, each a role and a content.
\<close>

record request =
  model :: string
  messages :: "(string \<times> string) list"

text \<open>
  What lies outside \<open>main.py\<close>:
  \<^item> \<open>backend\<close>: the remote service behind \<open>create\<close> together with the read of
    \<open>response.choices[0].message.content\<close>. It answers a request with the content
    (\<open>Inr\<close>) or raises, and \<open>Inl\<close> holds the \<open>str\<close> of what it raised. The content is a
    string, as the annotation of \<open>get_assistant_response\<close> says, and the answer is a
    function of the request alone (the completion client of the specification is
    stateless per call).
  \<^item> \<open>first_raised\<close>: \<open>asyncio.gather\<close> hands its awaiter the exception that is raised
    first in time. Given the exceptions of a batch in the order of its tasks, this picks
    that one.
  \<^item> \<open>message_time\<close>: the default timestamp of \<open>Message\<close>.
\<close>

record env =
  backend :: "request \<Rightarrow> string + string"
  first_raised :: "APIError list \<Rightarrow> APIError"
  message_time :: string

text \<open>The f-string of line 589.\<close>

definition system_prompt :: "string \<Rightarrow> string" where
  "system_prompt assistant_id = ''You are '' @ assistant_id"

text \<open>The request that \<open>get_assistant_response\<close> builds (lines 587 to 591).\<close>

definition chat_request :: "string \<Rightarrow> string \<Rightarrow> string \<Rightarrow> request" where
  "chat_request message assistant_id mdl =
     \<lparr>model = mdl,
      messages = [(''system'', system_prompt assistant_id), (''user'', message)]\<rparr>"

text \<open>\<open>ChatManager.get_assistant_response\<close>: every exception is wrapped in an \<open>APIError\<close>.\<close>

definition get_assistant_response :: "env \<Rightarrow> string \<Rightarrow> string \<Rightarrow> string \<Rightarrow> APIError + string" where
  "get_assistant_response e message assistant_id mdl =
     (case backend e (chat_request message assistant_id mdl) of
        Inl cause \<Rightarrow> Inl (APIError (response_failed_text @ cause))
      | Inr text \<Rightarrow> Inr text)"

text \<open>
  \<open>asyncio.gather(*tasks)\<close> on the outcomes of its tasks: the list of results in the
  order of the tasks, or the exception raised first.
\<close>

fun raised :: "('e + 'a) list \<Rightarrow> 'e list" where
  "raised [] = []"
| "raised (Inl x # rs) = x # raised rs"
| "raised (Inr y # rs) = raised rs"

fun returned :: "('e + 'a) list \<Rightarrow> 'a list" where
  "returned [] = []"
| "returned (Inl x # rs) = returned rs"
| "returned (Inr y # rs) = y # returned rs"

definition gather :: "(APIError list \<Rightarrow> APIError) \<Rightarrow> (APIError + string) list \<Rightarrow> APIError + string list" where
  "gather pick outcomes =
     (case raised outcomes of
        [] \<Rightarrow> Inr (returned outcomes)
      | x # xs \<Rightarrow> Inl (pick (x # xs)))"


section \<open>The execution engine\<close>

text \<open>
  The fields of \<open>ChatManager\<close> that \<open>process_message\<close> reads and writes. \<open>initialize\<close>
  assigns \<open>client\<close> before it sets the state to \<open>INITIALIZED\<close>, so in that state the
  client is there.
\<close>

record ChatManager =
  conversation_history :: "Message list"
  system_state :: SystemState

text \<open>\<open>Message(role=r, content=c)\<close>\<close>

definition new_message :: "env \<Rightarrow> string \<Rightarrow> string \<Rightarrow> Message" where
  "new_message e r c = \<lparr>role = r, content = c, timestamp = message_time e\<rparr>"

text \<open>
  The inner loop of a sequential step (lines 567 to 570), on the variables
  \<open>current_message\<close> and \<open>results\<close>. The last argument and the last component of the
  result are the requests sent to the backend so far.
\<close>

fun process_sequential ::
  "env \<Rightarrow> string \<Rightarrow> string list \<Rightarrow> string \<Rightarrow> string list \<Rightarrow> request list
     \<Rightarrow> (APIError + string \<times> string list) \<times> request list" where
  "process_sequential e mdl [] current_message results sent = (Inr (current_message, results), sent)"
| "process_sequential e mdl (assistant_id # rest) current_message results sent =
     (case get_assistant_response e current_message assistant_id mdl of
        Inl err \<Rightarrow> (Inl err, sent @ [chat_request current_message assistant_id mdl])
      | Inr response \<Rightarrow>
          process_sequential e mdl rest response (results @ [response])
            (sent @ [chat_request current_message assistant_id mdl]))"

text \<open>
  The loop over the steps (lines 555 to 570). A parallel step starts one task for each
  assistant, all on the same \<open>current_message\<close>, and awaits them together; the tasks
  are not cancelled when one of them raises, so the requests of all of them are sent.
\<close>

fun process_steps ::
  "env \<Rightarrow> string \<Rightarrow> WorkflowStep list \<Rightarrow> string \<Rightarrow> string list \<Rightarrow> request list
     \<Rightarrow> (APIError + string list) \<times> request list" where
  "process_steps e mdl [] current_message results sent = (Inr results, sent)"
| "process_steps e mdl (step # rest) current_message results sent =
     (if is_parallel step then
        (case gather (first_raised e)
                (map (\<lambda>assistant_id. get_assistant_response e current_message assistant_id mdl)
                   (assistants step)) of
           Inl err \<Rightarrow>
             (Inl err, sent @ map (\<lambda>assistant_id. chat_request current_message assistant_id mdl) (assistants step))
         | Inr step_results \<Rightarrow>
             process_steps e mdl rest (join newline step_results) (results @ step_results)
               (sent @ map (\<lambda>assistant_id. chat_request current_message assistant_id mdl) (assistants step)))
      else
        (case process_sequential e mdl (assistants step) current_message results sent of
           (Inl err, sent') \<Rightarrow> (Inl err, sent')
         | (Inr (current_message', results'), sent') \<Rightarrow>
             process_steps e mdl rest current_message' results' sent'))"

text \<open>
  \<open>ChatManager.process_message\<close>. The result is what the call returns or raises, the
  manager afterwards, and the requests the call sent to the backend.
\<close>

definition process_message ::
  "env \<Rightarrow> ChatManager \<Rightarrow> string \<Rightarrow> WorkflowStep list \<Rightarrow> string
     \<Rightarrow> (APIError + string) \<times> ChatManager \<times> request list" where
  "process_message e cm message workflow mdl =
     (if system_state cm \<noteq> INITIALIZED then (Inl (APIError not_initialized_text), cm, [])
      else
        let cm1 = cm\<lparr>conversation_history := conversation_history cm @ [new_message e ''user'' message]\<rparr>
        in (case process_steps e mdl workflow message [] [] of
              (Inl err, sent) \<Rightarrow> (Inl (APIError (process_failed_text @ str err)), cm1, sent)
            | (Inr results, sent) \<Rightarrow>
                (Inr (join newline results),
                 cm1\<lparr>conversation_history :=
                       conversation_history cm1 @ [new_message e ''assistant'' (join newline results)]\<rparr>,
                 sent)))"


section \<open>The run as the specification words it\<close>










section \<open>Observations on a run\<close>

text \<open>
  \<open>asyncio.gather\<close> raises one of the exceptions its tasks raised: the choice of
  \<open>first_raised\<close> is among them.
\<close>

definition picks_one :: "(APIError list \<Rightarrow> APIError) \<Rightarrow> bool" where
  "picks_one pick = (\<forall>errs. errs \<noteq> [] \<longrightarrow> pick errs \<in> set errs)"

text \<open>
  What the outcome \<open>r\<close> of the loop over \<open>steps\<close> says about the requests \<open>new\<close> it
  sent: each is the request of an assistant of a step; after a return all of them were
  answered; after a raise one of them failed, and the error raised wraps the cause of one
  that failed.
\<close>

definition step_trace :: "env \<Rightarrow> string \<Rightarrow> WorkflowStep list \<Rightarrow> (APIError + string list) \<Rightarrow> request list \<Rightarrow> bool" where
  "step_trace e mdl wsteps r new =
     ((\<forall>q\<in>set new. \<exists>step\<in>set wsteps. \<exists>a\<in>set (assistants step). \<exists>m. q = chat_request m a mdl) \<and>
      (case r of
         Inr x \<Rightarrow> \<forall>q\<in>set new. \<not> isl (backend e q)
       | Inl err \<Rightarrow>
           (\<exists>q\<in>set new. isl (backend e q)) \<and>
           (picks_one (first_raised e) \<longrightarrow>
              (\<exists>q\<in>set new. \<exists>cause. backend e q = Inl cause \<and> err = APIError (response_failed_text @ cause)))))"




section \<open>The execution engine: the loops\<close>

subsection \<open>The code against the specification's algorithm\<close>






subsection \<open>The requests of a run\<close>

lemma process_sequential_sent:
  "process_sequential e mdl as cur results sent = (r, sent') \<Longrightarrow>
   \<exists>new. sent' = sent @ new \<and> (\<forall>q\<in>set new. \<exists>a\<in>set as. \<exists>m. q = chat_request m a mdl)
     \<and> (case r of
          Inr x \<Rightarrow> \<forall>q\<in>set new. \<not> isl (backend e q)
        | Inl err \<Rightarrow> \<exists>q\<in>set new. \<exists>cause. backend e q = Inl cause \<and> err = APIError (response_failed_text @ cause))"
proof (induction as arbitrary: cur results sent)
  case Nil
  then show ?case by auto
next
  case (Cons a as)
  show ?case
  proof (cases "backend e (chat_request cur a mdl)")
    case (Inl cause)
    with Cons.prems show ?thesis by (auto simp: get_assistant_response_def)
  next
    case (Inr response)
    with Cons.prems have "process_sequential e mdl as response (results @ [response])
            (sent @ [chat_request cur a mdl]) = (r, sent')" by (simp add: get_assistant_response_def)
    from Cons.IH[OF this] obtain new where
      n: "sent' = (sent @ [chat_request cur a mdl]) @ new"
         "\<forall>q\<in>set new. \<exists>a\<in>set as. \<exists>m. q = chat_request m a mdl"
         "(case r of
          Inr x \<Rightarrow> \<forall>q\<in>set new. \<not> isl (backend e q)
        | Inl err \<Rightarrow> \<exists>q\<in>set new. \<exists>cause. backend e q = Inl cause \<and> err = APIError (response_failed_text @ cause))"
      by blast
    show ?thesis
    proof (intro exI[of _ "chat_request cur a mdl # new"] conjI)
      show "sent' = sent @ chat_request cur a mdl # new" using n(1) by simp
      show "\<forall>q\<in>set (chat_request cur a mdl # new). \<exists>a\<in>set (a # as). \<exists>m. q = chat_request m a mdl"
        using n(2) by auto
      show "case r of
          Inr x \<Rightarrow> \<forall>q\<in>set (chat_request cur a mdl # new). \<not> isl (backend e q)
        | Inl err \<Rightarrow> \<exists>q\<in>set (chat_request cur a mdl # new). \<exists>cause. backend e q = Inl cause \<and> err = APIError (response_failed_text @ cause)"
        using n(3) Inr by (auto split: sum.splits)
    qed
  qed
qed

lemma raised_responses:
  "err \<in> set (raised (map (\<lambda>a. get_assistant_response e cur a mdl) as)) \<Longrightarrow>
   \<exists>a\<in>set as. \<exists>cause. backend e (chat_request cur a mdl) = Inl cause \<and> err = APIError (response_failed_text @ cause)"
  by (induction as) (auto simp: get_assistant_response_def split: sum.splits)

lemma raised_empty:
  "raised (map (\<lambda>a. get_assistant_response e cur a mdl) as) = [] \<Longrightarrow>
   \<forall>a\<in>set as. \<not> isl (backend e (chat_request cur a mdl))"
  by (induction as) (auto simp: get_assistant_response_def split: sum.splits)

lemma raised_nonempty:
  "raised (map (\<lambda>a. get_assistant_response e cur a mdl) as) \<noteq> [] \<Longrightarrow>
   \<exists>a\<in>set as. isl (backend e (chat_request cur a mdl))"
  by (induction as) (auto simp: get_assistant_response_def split: sum.splits)

lemma step_trace_Cons:
  assumes "\<forall>q\<in>set new1. \<exists>a\<in>set (assistants step). \<exists>m. q = chat_request m a mdl"
      and "\<forall>q\<in>set new1. \<not> isl (backend e q)"
      and "step_trace e mdl wsteps r new2"
  shows "step_trace e mdl (step # wsteps) r (new1 @ new2)"
  using assms unfolding step_trace_def
  by (cases r) (auto; blast)+

lemma process_steps_sent:
  "process_steps e mdl wsteps cur results sent = (r, sent') \<Longrightarrow>
   \<exists>new. sent' = sent @ new \<and> step_trace e mdl wsteps r new"
proof (induction wsteps arbitrary: cur results sent)
  case Nil
  then show ?case by (auto simp: step_trace_def)
next
  case (Cons step wsteps)
  show ?case
  proof (cases "is_parallel step")
    case True
    let ?out = "map (\<lambda>a. get_assistant_response e cur a mdl) (assistants step)"
    let ?reqs = "map (\<lambda>a. chat_request cur a mdl) (assistants step)"
    have shape: "\<forall>q\<in>set ?reqs. \<exists>a\<in>set (assistants step). \<exists>m. q = chat_request m a mdl" by auto
    show ?thesis
    proof (cases "raised ?out")
      case Nil
      then have g: "gather (first_raised e) ?out = Inr (returned ?out)" by (simp add: gather_def)
      from raised_empty[OF Nil] have ok: "\<forall>q\<in>set ?reqs. \<not> isl (backend e q)" by auto
      from Cons.prems True g have "process_steps e mdl wsteps (join newline (returned ?out)) (results @ returned ?out)
               (sent @ ?reqs) = (r, sent')" by simp
      from Cons.IH[OF this] obtain new where n: "sent' = (sent @ ?reqs) @ new" "step_trace e mdl wsteps r new" by blast
      from step_trace_Cons[OF shape ok n(2)] n(1) show ?thesis by auto
    next
      case (Cons x xs)
      then have g: "gather (first_raised e) ?out = Inl (first_raised e (x # xs))" by (simp add: gather_def)
      with Cons.prems True have r: "r = Inl (first_raised e (x # xs))" "sent' = sent @ ?reqs" by auto
      from Cons have "raised ?out \<noteq> []" by simp
      from raised_nonempty[OF this] have f: "\<exists>q\<in>set ?reqs. isl (backend e q)" by auto
      have p: "picks_one (first_raised e) \<longrightarrow>
              (\<exists>q\<in>set ?reqs. \<exists>cause. backend e q = Inl cause \<and> first_raised e (x # xs) = APIError (response_failed_text @ cause))"
      proof
        assume "picks_one (first_raised e)"
        then have "first_raised e (x # xs) \<in> set (raised ?out)" using Cons by (auto simp: picks_one_def)
        from raised_responses[OF this] show "\<exists>q\<in>set ?reqs. \<exists>cause. backend e q = Inl cause \<and> first_raised e (x # xs) = APIError (response_failed_text @ cause)"
          by auto
      qed
      have "step_trace e mdl (step # wsteps) r ?reqs"
        unfolding step_trace_def r(1) using f p by auto
      with r(2) show ?thesis by blast
    qed
  next
    case False
    obtain q s1 where ps: "process_sequential e mdl (assistants step) cur results sent = (q, s1)"
      by (cases "process_sequential e mdl (assistants step) cur results sent") auto
    from process_sequential_sent[OF ps] obtain new1 where
      n1: "s1 = sent @ new1" "\<forall>q\<in>set new1. \<exists>a\<in>set (assistants step). \<exists>m. q = chat_request m a mdl"
        "(case q of
          Inr x \<Rightarrow> \<forall>q\<in>set new1. \<not> isl (backend e q)
        | Inl err \<Rightarrow> \<exists>q\<in>set new1. \<exists>cause. backend e q = Inl cause \<and> err = APIError (response_failed_text @ cause))"
      by blast
    show ?thesis
    proof (cases q)
      case (Inl err)
      with Cons.prems ps False have r: "r = Inl err" "sent' = s1" by auto
      from n1(3) Inl obtain q' cause where q': "q' \<in> set new1" "backend e q' = Inl cause" "err = APIError (response_failed_text @ cause)"
        by auto
      have a: "\<exists>q\<in>set new1. isl (backend e q)"
        using q'(1,2) by (intro bexI[of _ q']) simp_all
      have b: "\<exists>q\<in>set new1. \<exists>cause. backend e q = Inl cause \<and> err = APIError (response_failed_text @ cause)"
        using q' by blast
      have c: "\<forall>q\<in>set new1. \<exists>s\<in>set (step # wsteps). \<exists>a\<in>set (assistants s). \<exists>m. q = chat_request m a mdl"
        using n1(2) by simp
      have "step_trace e mdl (step # wsteps) r new1"
        unfolding step_trace_def r(1) using a b c by simp
      with r(2) n1(1) show ?thesis by blast
    next
      case (Inr p)
      obtain c rs' where p: "p = (c, rs')" by (cases p) auto
      from Cons.prems ps Inr p False have "process_steps e mdl wsteps c rs' s1 = (r, sent')" by simp
      from Cons.IH[OF this] obtain new where n: "sent' = s1 @ new" "step_trace e mdl wsteps r new" by blast
      from n1(3) Inr have ok: "\<forall>q\<in>set new1. \<not> isl (backend e q)" by simp
      from step_trace_Cons[OF n1(2) ok n(2)] n(1) n1(1) show ?thesis by auto
    qed
  qed
qed

text \<open>Once a step has raised, the steps after it are never looked at.\<close>

lemma process_steps_abort:
  "process_steps e mdl wsteps cur results sent = (Inl err, sent') \<Longrightarrow>
   process_steps e mdl (wsteps @ later) cur results sent = (Inl err, sent')"
proof (induction wsteps arbitrary: cur results sent)
  case Nil
  then show ?case by simp
next
  case (Cons step wsteps)
  show ?case
  proof (cases "is_parallel step")
    case True
    with Cons.prems Cons.IH show ?thesis by (auto split: sum.splits)
  next
    case False
    with Cons.prems Cons.IH show ?thesis by (auto split: sum.splits prod.splits)
  qed
qed

subsection \<open>The system prompts of a run\<close>





subsection \<open>\<open>process_message\<close> on the outcome of its loop\<close>

lemma process_message_raises:
  "system_state cm = INITIALIZED \<Longrightarrow> process_steps e mdl workflow message [] [] = (Inl err, sent) \<Longrightarrow>
   process_message e cm message workflow mdl =
     (Inl (APIError (process_failed_text @ str err)),
      cm\<lparr>conversation_history := conversation_history cm @
            [\<lparr>role = ''user'', content = message, timestamp = message_time e\<rparr>]\<rparr>,
      sent)"
  by (simp add: process_message_def new_message_def Let_def)

lemma process_message_returns:
  "system_state cm = INITIALIZED \<Longrightarrow> process_steps e mdl workflow message [] [] = (Inr results, sent) \<Longrightarrow>
   process_message e cm message workflow mdl =
     (Inr (join newline results),
      cm\<lparr>conversation_history := conversation_history cm @
            [\<lparr>role = ''user'', content = message, timestamp = message_time e\<rparr>,
             \<lparr>role = ''assistant'', content = join newline results, timestamp = message_time e\<rparr>]\<rparr>,
      sent)"
  by (simp add: process_message_def new_message_def Let_def)

lemma process_message_issued:
  "system_state cm = INITIALIZED \<Longrightarrow> process_steps e mdl workflow message [] [] = (r, sent) \<Longrightarrow>
   process_message e cm message workflow mdl = (res, cm', issued) \<Longrightarrow> issued = sent \<and> (isl res = isl r)"
  by (cases r) (auto simp: process_message_raises process_message_returns)


section \<open>The execution engine: the run\<close>



text \<open>
  C2. When a completion call of a run fails, the run raises; the history holds the user
  message appended at the start and nothing else new (no assistant message, none of the
  results obtained so far); and the steps after the failing one play no part: whatever
  follows in the workflow, the error, the history and the requests sent are the same.
\<close>

theorem failed_run_commits_nothing:
  assumes "system_state cm = INITIALIZED"
      and "process_message e cm message workflow mdl = (res, cm', issued)"
      and "\<exists>q\<in>set issued. isl (backend e q)"
  shows "(\<exists>err. res = Inl err) \<and>
         cm' = cm\<lparr>conversation_history := conversation_history cm @
                    [\<lparr>role = ''user'', content = message, timestamp = message_time e\<rparr>]\<rparr> \<and>
         (\<forall>later. process_message e cm message (workflow @ later) mdl = (res, cm', issued))"
proof -
  obtain r sent where ps: "process_steps e mdl workflow message [] [] = (r, sent)"
    by (cases "process_steps e mdl workflow message [] []") auto
  from process_steps_sent[OF ps] have tr: "step_trace e mdl workflow r sent" by simp
  from process_message_issued[OF assms(1) ps assms(2)] have i: "issued = sent" by simp
  from tr assms(3) i obtain err where r: "r = Inl err"
    by (cases r) (auto simp: step_trace_def)
  from process_steps_abort[OF ps[unfolded r]]
  have ab: "\<And>later. process_steps e mdl (workflow @ later) message [] [] = (Inl err, sent)" .
  from process_message_raises[OF assms(1) ps[unfolded r]] assms(2)
  have "res = Inl (APIError (process_failed_text @ str err))"
    and "cm' = cm\<lparr>conversation_history := conversation_history cm @
                    [\<lparr>role = ''user'', content = message, timestamp = message_time e\<rparr>]\<rparr>"
    and "issued = sent"
    by simp_all
  moreover from this have "\<forall>later. process_message e cm message (workflow @ later) mdl = (res, cm', issued)"
    using process_message_raises[OF assms(1) ab] by simp
  ultimately show ?thesis by blast
qed

theorem failed_run_commits_nothing_witness:
  "fst (process_message
         \<lparr>backend = (\<lambda>q. if system_prompt ''B'' \<in> set (map snd (messages q)) then Inl ''timeout'' else Inr ''ok''),
          first_raised = hd, message_time = ''t0''\<rparr>
         \<lparr>conversation_history = [], system_state = INITIALIZED\<rparr> ''X''
         [\<lparr>assistants = [''A''], is_parallel = False, step_id = ''1''\<rparr>,
          \<lparr>assistants = [''B''], is_parallel = False, step_id = ''2''\<rparr>,
          \<lparr>assistants = [''C''], is_parallel = False, step_id = ''3''\<rparr>] ''gpt'') =
     Inl (APIError (process_failed_text @ response_failed_text @ ''timeout'')) \<and>
   fst (snd (process_message
         \<lparr>backend = (\<lambda>q. if system_prompt ''B'' \<in> set (map snd (messages q)) then Inl ''timeout'' else Inr ''ok''),
          first_raised = hd, message_time = ''t0''\<rparr>
         \<lparr>conversation_history = [], system_state = INITIALIZED\<rparr> ''X''
         [\<lparr>assistants = [''A''], is_parallel = False, step_id = ''1''\<rparr>,
          \<lparr>assistants = [''B''], is_parallel = False, step_id = ''2''\<rparr>,
          \<lparr>assistants = [''C''], is_parallel = False, step_id = ''3''\<rparr>] ''gpt'')) =
     \<lparr>conversation_history = [\<lparr>role = ''user'', content = ''X'', timestamp = ''t0''\<rparr>],
      system_state = INITIALIZED\<rparr>"
proof -
  let ?e = "\<lparr>backend = (\<lambda>q. if system_prompt ''B'' \<in> set (map snd (messages q)) then Inl ''timeout'' else Inr ''ok''),
          first_raised = hd, message_time = ''t0''\<rparr>"
  let ?cm = "\<lparr>conversation_history = [], system_state = INITIALIZED\<rparr>"
  let ?wf = "[\<lparr>assistants = [''A''], is_parallel = False, step_id = ''1''\<rparr>,
          \<lparr>assistants = [''B''], is_parallel = False, step_id = ''2''\<rparr>,
          \<lparr>assistants = [''C''], is_parallel = False, step_id = ''3''\<rparr>]"
  have p: "process_message ?e ?cm ''X'' ?wf ''gpt'' =
        (Inl (APIError (process_failed_text @ response_failed_text @ ''timeout'')),
         \<lparr>conversation_history = [\<lparr>role = ''user'', content = ''X'', timestamp = ''t0''\<rparr>],
          system_state = INITIALIZED\<rparr>,
         [chat_request ''X'' ''A'' ''gpt'', chat_request ''ok'' ''B'' ''gpt''])"
    by (simp add: process_message_def get_assistant_response_def chat_request_def new_message_def system_prompt_def Let_def)
  have i: "system_state ?cm = INITIALIZED" by simp
  have f: "\<exists>q\<in>set [chat_request ''X'' ''A'' ''gpt'', chat_request ''ok'' ''B'' ''gpt'']. isl (backend ?e q)"
    by (simp add: chat_request_def)
  from failed_run_commits_nothing[OF i p f] show ?thesis using p by simp
qed









text \<open>
  C10. In an initialised session a run with no steps returns the empty string, sends no
  request, and appends to the history the user message with the initial message and an
  assistant message with the empty string.
\<close>

theorem empty_workflow_run:
  assumes "system_state cm = INITIALIZED"
  shows "process_message e cm message [] mdl =
           (Inr [],
            cm\<lparr>conversation_history := conversation_history cm @
                 [\<lparr>role = ''user'', content = message, timestamp = message_time e\<rparr>,
                  \<lparr>role = ''assistant'', content = [], timestamp = message_time e\<rparr>]\<rparr>,
            [])"
  using assms by (simp add: process_message_def new_message_def)

theorem empty_workflow_run_witness:
  "process_message \<lparr>backend = (\<lambda>q. Inl ''down''), first_raised = hd, message_time = ''t0''\<rparr>
      \<lparr>conversation_history = [], system_state = INITIALIZED\<rparr> ''hello'' [] ''gpt'' =
     (Inr [],
      \<lparr>conversation_history =
         [\<lparr>role = ''user'', content = ''hello'', timestamp = ''t0''\<rparr>,
          \<lparr>role = ''assistant'', content = [], timestamp = ''t0''\<rparr>],
       system_state = INITIALIZED\<rparr>,
      [])"
  using empty_workflow_run [of "\<lparr>conversation_history = [], system_state = INITIALIZED\<rparr>"
      "\<lparr>backend = (\<lambda>q. Inl ''down''), first_raised = hd, message_time = ''t0''\<rparr>" "''hello''" "''gpt''"]
  by simp


section \<open>The assistant store\<close>

lemma update_fresh: "map_of al k = None \<Longrightarrow> AList.update k v al = al @ [(k, v)]"
  by (induction al) auto



text \<open>
  C6. \<open>add_assistant\<close> derives the id from the name: the lower-cased name with every
  blank replaced by an underscore. When the store already holds that id the call reports
  failure and leaves the store as it was; otherwise it reports success and the store
  gains, at its end and under that id, the new assistant.
\<close>

theorem add_assistant_by_derived_id:
  assumes "add_assistant lower class_time writable m nm rl pr = (ok, m')"
      and "assistant_id = replace_char (CHR '' '') (CHR ''_'') (lower nm)"
  shows "case get_assistant m assistant_id of
           Some a \<Rightarrow> \<not> ok \<and> m' = m
         | None \<Rightarrow>
             ok \<and>
             AssistantManager.assistants m' =
               AssistantManager.assistants m @
                 [(assistant_id,
                   \<lparr>id' = assistant_id, Assistant.name = nm, Assistant.role = rl, prompt = pr,
                    Assistant.created_at = class_time, Assistant.modified_at = class_time\<rparr>)]"
  using assms
  by (auto simp: add_assistant_def get_assistant_def save_assistants_def Let_def update_fresh
           split: option.splits if_splits)

theorem add_assistant_by_derived_id_witness:
  "add_assistant ascii_lower ''t1'' True
     \<lparr>AssistantManager.assistants =
        [(''my_poet'', \<lparr>id' = ''my_poet'', Assistant.name = ''My Poet'', Assistant.role = ''writer'',
                       prompt = ''Write verse'', Assistant.created_at = ''t0'', Assistant.modified_at = ''t0''\<rparr>)],
      saved_assistants = None\<rparr>
     ''MY poet'' ''critic'' ''Judge verse'' =
   (False,
    \<lparr>AssistantManager.assistants =
        [(''my_poet'', \<lparr>id' = ''my_poet'', Assistant.name = ''My Poet'', Assistant.role = ''writer'',
                       prompt = ''Write verse'', Assistant.created_at = ''t0'', Assistant.modified_at = ''t0''\<rparr>)],
      saved_assistants = None\<rparr>)"
proof -
  let ?m = "\<lparr>AssistantManager.assistants =
        [(''my_poet'', \<lparr>id' = ''my_poet'', Assistant.name = ''My Poet'', Assistant.role = ''writer'',
                       prompt = ''Write verse'', Assistant.created_at = ''t0'', Assistant.modified_at = ''t0''\<rparr>)],
      saved_assistants = None\<rparr>"
  obtain ok m' where a: "add_assistant ascii_lower ''t1'' True ?m ''MY poet'' ''critic'' ''Judge verse'' = (ok, m')"
    by (cases "add_assistant ascii_lower ''t1'' True ?m ''MY poet'' ''critic'' ''Judge verse''") auto
  have i: "''my_poet'' = replace_char (CHR '' '') (CHR ''_'') (ascii_lower ''MY poet'')"
    by code_simp
  from add_assistant_by_derived_id[OF a i] have "\<not> ok \<and> m' = ?m"
    by (simp add: get_assistant_def)
  with a show ?thesis by simp
qed

subsection \<open>Updates\<close>









section \<open>The workflow store\<close>

subsection \<open>Objects that stay as they are\<close>

lemma map_of_list_all:
  "list_all P al \<Longrightarrow> map_of al k = Some v \<Longrightarrow> P (k, v)"
  by (induction al) (auto split: if_splits)

lemma keeps_objects_steps:
  assumes "keeps_objects s t"
      and "steps w < next_ref s"
      and "list_all (\<lambda>r. r < next_ref s) (list_at s (steps w))"
  shows "workflow_steps t w = workflow_steps s w \<and> list_at t (steps w) = list_at s (steps w)"
proof -
  from assms(1,2) have l: "list_at t (steps w) = list_at s (steps w)"
    by (simp add: keeps_objects_def list_at_def)
  have "map (step_at t) (list_at s (steps w)) = map (step_at s) (list_at s (steps w))"
    using assms(1,3) by (auto simp: keeps_objects_def step_at_def list_all_iff)
  with l show ?thesis by (simp add: workflow_steps_def)
qed

lemma add_step_draft_apart:
  "draft_apart s t \<Longrightarrow> draft_apart s (snd (add_step clock t selected par))"
  by (auto simp: draft_apart_def keeps_objects_def add_step_def new_step_object_def)

lemma clear_draft_apart:
  "draft_apart s t \<Longrightarrow> draft_apart s (clear_current_workflow t)"
  by (auto simp: draft_apart_def keeps_objects_def clear_current_workflow_def new_list_object_def)

lemma change_draft_all_apart:
  "draft_apart s t \<Longrightarrow> draft_apart s (change_draft_all clock changes t)"
proof (induction changes arbitrary: t)
  case Nil
  then show ?case by simp
next
  case (Cons c cs)
  have "draft_apart s (change_draft clock c t)"
    using Cons.prems by (cases c) (simp_all add: add_step_draft_apart clear_draft_apart)
  from Cons.IH[OF this] show ?case by simp
qed

lemma load_workflow_draft_apart:
  "load_workflow s nm = (True, s1) \<Longrightarrow> draft_apart s s1"
  by (auto simp: load_workflow_def new_list_object_def draft_apart_def keeps_objects_def split: option.splits)

lemma draft_apart_stored:
  assumes "refs_given_out s" and "draft_apart s t"
  shows "stored_workflow t k = stored_workflow s k"
proof (cases "map_of (workflows s) k")
  case None
  with assms(2) show ?thesis by (simp add: stored_workflow_def draft_apart_def)
next
  case (Some w)
  from map_of_list_all[OF _ Some] assms(1)
  have w: "steps w < next_ref s" "list_all (\<lambda>r. r < next_ref s) (list_at s (steps w))"
    by (auto simp: refs_given_out_def)
  from assms(2) have "keeps_objects s t" by (simp add: draft_apart_def)
  from keeps_objects_steps[OF this w] have "workflow_steps t w = workflow_steps s w" by simp
  with Some assms(2) show ?thesis by (simp add: stored_workflow_def draft_apart_def)
qed

subsection \<open>Reading back what was written\<close>





subsection \<open>Loading\<close>

lemma new_step_objects_frame:
  "new_step_objects clock args t = (refs, t') \<Longrightarrow>
   workflows t' = workflows t \<and> current_workflow t' = current_workflow t \<and>
   list_objects t' = list_objects t \<and> workflow_file t' = workflow_file t \<and>
   next_ref t' = next_ref t + length args \<and>
   (\<forall>r<next_ref t. step_objects t' r = step_objects t r) \<and>
   list_all (\<lambda>r. r < next_ref t') refs \<and>
   map (\<lambda>r. (is_parallel (step_at t' r), assistants (step_at t' r))) refs = map (\<lambda>(a, p, i). (p, a)) args"
proof (induction args arbitrary: t refs t')
  case Nil
  then show ?case by simp
next
  case (Cons arg args)
  obtain a p i where arg: "arg = (a, p, i)" by (cases arg) auto
  obtain r s1 where n: "new_step_object clock a p i t = (r, s1)"
    by (cases "new_step_object clock a p i t") auto
  obtain rs s2 where m: "new_step_objects clock args s1 = (rs, s2)"
    by (cases "new_step_objects clock args s1") auto
  from Cons.prems arg n m have res: "refs = r # rs" "t' = s2" by simp_all
  from n have s1: "r = next_ref t" "workflows s1 = workflows t" "current_workflow s1 = current_workflow t"
    "list_objects s1 = list_objects t" "workflow_file s1 = workflow_file t" "next_ref s1 = Suc (next_ref t)"
    "\<forall>q<next_ref t. step_objects s1 q = step_objects t q"
    "step_objects s1 r = Some \<lparr>assistants = a, is_parallel = p, step_id = (if i = [] then clock (next_ref t) else i)\<rparr>"
    by (auto simp: new_step_object_def)
  note ih = Cons.IH[OF m]
  from ih s1 have keep: "step_objects s2 r = step_objects s1 r" by simp
  have "step_at s2 r = \<lparr>assistants = a, is_parallel = p, step_id = (if i = [] then clock (next_ref t) else i)\<rparr>"
    by (simp add: step_at_def keep s1(8))
  then have head: "(is_parallel (step_at s2 r), assistants (step_at s2 r)) = (p, a)" by simp
  have lt: "r < next_ref s2" using ih s1 by simp
  show ?case
    unfolding res arg using ih s1 head lt by auto
qed

lemma map_update:
  "map (\<lambda>(k, w). (k, f w)) (AList.update k0 w0 al) = AList.update k0 (f w0) (map (\<lambda>(k, w). (k, f w)) al)"
  by (induction al) auto

lemma in_set_update:
  "(k, w) \<in> set (AList.update k0 w0 al) \<Longrightarrow> w = w0 \<or> (k, w) \<in> set al"
  by (induction al) (auto split: if_splits)

lemma load_entry_view:
  assumes g: "refs_given_out t"
      and n: "new_step_objects clock args t = (refs, s1)"
      and l: "new_list_object refs s1 = (lst, s2)"
  shows "refs_given_out (s2\<lparr>workflows := AList.update nm
             \<lparr>name = nm, steps = lst, description = d, created_at = c, modified_at = m\<rparr> (workflows s2)\<rparr>) \<and>
         store_view (s2\<lparr>workflows := AList.update nm
             \<lparr>name = nm, steps = lst, description = d, created_at = c, modified_at = m\<rparr> (workflows s2)\<rparr>) =
           AList.update nm (map (\<lambda>(a, p, i). (p, a)) args) (store_view t)"
proof -
  let ?w = "\<lparr>name = nm, steps = lst, description = d, created_at = c, modified_at = m\<rparr>"
  let ?t2 = "s2\<lparr>workflows := AList.update nm ?w (workflows s2)\<rparr>"
  let ?v = "\<lambda>s w. map (\<lambda>step. (is_parallel step, assistants step)) (workflow_steps s w)"
  note f = new_step_objects_frame[OF n]
  from l have s2: "lst = next_ref s1" "workflows s2 = workflows s1" "current_workflow s2 = current_workflow s1"
      "step_objects s2 = step_objects s1" "next_ref s2 = Suc (next_ref s1)"
      "list_objects s2 = (list_objects s1)(next_ref s1 \<mapsto> refs)"
    by (auto simp: new_list_object_def)
  have ko: "keeps_objects t ?t2"
    using f s2 by (auto simp: keeps_objects_def)
  have old: "\<And>k w. (k, w) \<in> set (workflows t) \<Longrightarrow>
      workflow_steps ?t2 w = workflow_steps t w \<and> list_at ?t2 (steps w) = list_at t (steps w) \<and>
      steps w < next_ref t \<and> list_all (\<lambda>r. r < next_ref t) (list_at t (steps w))"
  proof -
    fix k w assume "(k, w) \<in> set (workflows t)"
    with g have w: "steps w < next_ref t" "list_all (\<lambda>r. r < next_ref t) (list_at t (steps w))"
      by (auto simp: refs_given_out_def list_all_iff)
    from keeps_objects_steps[OF ko w] w
    show "workflow_steps ?t2 w = workflow_steps t w \<and> list_at ?t2 (steps w) = list_at t (steps w) \<and>
      steps w < next_ref t \<and> list_all (\<lambda>r. r < next_ref t) (list_at t (steps w))" by simp
  qed
  have lw: "list_at ?t2 lst = refs" by (simp add: list_at_def s2)
  have sa: "\<And>r. step_at ?t2 r = step_at s1 r" by (simp add: step_at_def s2)
  have ws: "workflow_steps ?t2 ?w = map (step_at s1) refs"
    by (simp add: workflow_steps_def lw sa)
  from f have fv: "map (\<lambda>r. (is_parallel (step_at s1 r), assistants (step_at s1 r))) refs =
      map (\<lambda>(a, p, i). (p, a)) args" by simp
  have new: "?v ?t2 ?w = map (\<lambda>(a, p, i). (p, a)) args"
    unfolding ws using fv by (simp add: comp_def)
  have nr: "next_ref ?t2 = Suc (next_ref t + length args)" using f s2 by simp
  have 1: "refs_given_out ?t2"
    unfolding refs_given_out_def
  proof (intro conjI)
    show "current_workflow ?t2 < next_ref ?t2"
      using g f s2 by (simp add: refs_given_out_def)
    from g have cw: "current_workflow t < next_ref t"
      and dr: "list_all (\<lambda>r. r < next_ref t) (list_at t (current_workflow t))"
      by (simp_all add: refs_given_out_def)
    have "current_workflow ?t2 = current_workflow t" using f s2 by simp
    moreover have "list_at ?t2 (current_workflow t) = list_at t (current_workflow t)"
      using ko cw by (simp add: keeps_objects_def list_at_def)
    ultimately show "list_all (\<lambda>r. r < next_ref ?t2) (list_at ?t2 (current_workflow ?t2))"
      using dr nr by (auto simp: list_all_iff)
    have "\<And>k w. (k, w) \<in> set (AList.update nm ?w (workflows t)) \<Longrightarrow>
            steps w < next_ref ?t2 \<and> list_all (\<lambda>r. r < next_ref ?t2) (list_at ?t2 (steps w))"
    proof -
      fix k w assume "(k, w) \<in> set (AList.update nm ?w (workflows t))"
      then consider "w = ?w" | "(k, w) \<in> set (workflows t)"
        by (auto dest: in_set_update)
      then show "steps w < next_ref ?t2 \<and> list_all (\<lambda>r. r < next_ref ?t2) (list_at ?t2 (steps w))"
      proof cases
        case 1
        have "list_all (\<lambda>r. r < next_ref ?t2) refs"
          using f s2 by (auto simp: list_all_iff)
        with 1 lw show ?thesis using s2 by simp
      next
        case 2
        from old[OF 2] nr show ?thesis by (auto simp: list_all_iff)
      qed
    qed
    then show "list_all (\<lambda>(k, w). steps w < next_ref ?t2 \<and> list_all (\<lambda>r. r < next_ref ?t2) (list_at ?t2 (steps w)))
        (workflows ?t2)"
      using f s2 by (auto simp: list_all_iff)
  qed
  have "store_view ?t2 = map (\<lambda>(k, w). (k, ?v ?t2 w)) (AList.update nm ?w (workflows t))"
    using f s2 by (simp add: store_view_def)
  also have "\<dots> = AList.update nm (?v ?t2 ?w) (map (\<lambda>(k, w). (k, ?v ?t2 w)) (workflows t))"
    by (rule map_update)
  also have "map (\<lambda>(k, w). (k, ?v ?t2 w)) (workflows t) = store_view t"
    unfolding store_view_def using old by (intro map_cong) auto
  finally show ?thesis using 1 new by simp
qed






subsection \<open>The invariants of the store\<close>

lemma in_set_update_key:
  "(k, w) \<in> set (AList.update k0 w0 al) \<Longrightarrow> (k = k0 \<and> w = w0) \<or> (k, w) \<in> set al"
  by (induction al) (auto split: if_splits)

lemma keyed_update:
  assumes "distinct (map fst al)" and "list_all (\<lambda>(k, w). name w = k) al" and "name w0 = k0"
  shows "distinct (map fst (AList.update k0 w0 al)) \<and> list_all (\<lambda>(k, w). name w = k) (AList.update k0 w0 al)"
proof
  show "distinct (map fst (AList.update k0 w0 al))" using assms(1) by (rule distinct_update)
  show "list_all (\<lambda>(k, w). name w = k) (AList.update k0 w0 al)"
    unfolding list_all_iff
  proof
    fix x assume x: "x \<in> set (AList.update k0 w0 al)"
    obtain k w where kw: "x = (k, w)" by (cases x) auto
    from in_set_update_key[OF x[unfolded kw]] assms(2,3)
    show "case x of (k, w) \<Rightarrow> name w = k" by (auto simp: kw list_all_iff)
  qed
qed

lemma load_entries_invariants:
  "refs_given_out t \<Longrightarrow> keyed_by_name t \<Longrightarrow>
   refs_given_out (load_entries clock js t) \<and> keyed_by_name (load_entries clock js t)"
proof (induction js arbitrary: t)
  case Nil
  then show ?case by simp
next
  case (Cons j js)
  show ?case
  proof (cases "decode_workflow j")
    case None
    with Cons.prems show ?thesis by simp
  next
    case (Some v)
    obtain nm args d c m where v: "v = (nm, args, d, c, m)" by (cases v) auto
    obtain refs s1 where n: "new_step_objects clock args t = (refs, s1)"
      by (cases "new_step_objects clock args t") auto
    obtain lst s2 where l: "new_list_object refs s1 = (lst, s2)"
      by (cases "new_list_object refs s1") auto
    let ?t2 = "s2\<lparr>workflows := AList.update nm
             \<lparr>name = nm, steps = lst, description = d, created_at = c, modified_at = m\<rparr> (workflows s2)\<rparr>"
    from load_entry_view[OF Cons.prems(1) n l, of nm d c m] have g2: "refs_given_out ?t2" by simp
    from new_step_objects_frame[OF n] l have w2: "workflows s2 = workflows t"
      by (auto simp: new_list_object_def)
    from Cons.prems(2) have k2: "keyed_by_name ?t2"
      unfolding keyed_by_name_def using keyed_update[of "workflows t" _ nm] by (simp add: w2)
    from Cons.IH[OF g2 k2] show ?thesis by (simp add: Some v n l)
  qed
qed

lemma init_invariants:
  "refs_given_out (init_WorkflowManager clock file) \<and> keyed_by_name (init_WorkflowManager clock file)"
proof -
  let ?t0 = "\<lparr>workflows = [], current_workflow = 0, list_objects = Map.empty(0 \<mapsto> []),
        step_objects = Map.empty, next_ref = Suc 0, workflow_file = file\<rparr>"
  have 0: "refs_given_out ?t0" "keyed_by_name ?t0"
    by (simp_all add: refs_given_out_def keyed_by_name_def list_at_def)
  show ?thesis
    unfolding init_WorkflowManager_def load_workflows_def
    using 0 load_entries_invariants[OF 0]
    by (auto split: option.splits json.splits)
qed

lemma refs_given_out_step:
  assumes g: "refs_given_out s"
      and w: "workflows t = workflows s"
      and n: "next_ref s \<le> next_ref t"
      and c: "current_workflow t < next_ref t"
      and d: "list_all (\<lambda>r. r < next_ref t) (list_at t (current_workflow t))"
      and l: "\<And>r x. r < next_ref s \<Longrightarrow> x \<in> set (list_at t r) \<Longrightarrow> x \<in> set (list_at s r) \<or> x < next_ref t"
  shows "refs_given_out t"
  unfolding refs_given_out_def
proof (intro conjI)
  show "current_workflow t < next_ref t" by (rule c)
  show "list_all (\<lambda>r. r < next_ref t) (list_at t (current_workflow t))" by (rule d)
  show "list_all (\<lambda>(k, w). steps w < next_ref t \<and> list_all (\<lambda>r. r < next_ref t) (list_at t (steps w))) (workflows t)"
    unfolding list_all_iff
  proof
    fix kw assume "kw \<in> set (workflows t)"
    then have kw: "kw \<in> set (workflows s)" by (simp add: w)
    obtain k v where p: "kw = (k, v)" by (cases kw) auto
    from g kw p have v: "steps v < next_ref s" "\<forall>x\<in>set (list_at s (steps v)). x < next_ref s"
      by (auto simp: refs_given_out_def list_all_iff)
    have "\<forall>x\<in>set (list_at t (steps v)). x < next_ref t"
    proof
      fix x assume "x \<in> set (list_at t (steps v))"
      from l[OF v(1) this] v(2) n show "x < next_ref t" by auto
    qed
    with v(1) n show "case kw of (k, w) \<Rightarrow> steps w < next_ref t \<and> (\<forall>r\<in>set (list_at t (steps w)). r < next_ref t)"
      by (simp add: p)
  qed
qed

lemma add_step_invariants:
  assumes "refs_given_out s" and "keyed_by_name s"
  shows "refs_given_out (snd (add_step clock s selected par)) \<and> keyed_by_name (snd (add_step clock s selected par))"
proof -
  have "keyed_by_name (snd (add_step clock s selected par))"
    using assms(2) by (simp add: keyed_by_name_def add_step_def new_step_object_def)
  moreover have "refs_given_out (snd (add_step clock s selected par))"
  proof (rule refs_given_out_step[OF assms(1)])
    show "workflows (snd (add_step clock s selected par)) = workflows s"
      by (simp add: add_step_def new_step_object_def)
    show "next_ref s \<le> next_ref (snd (add_step clock s selected par))"
      by (simp add: add_step_def new_step_object_def)
    show "current_workflow (snd (add_step clock s selected par)) < next_ref (snd (add_step clock s selected par))"
      using assms(1) by (simp add: add_step_def new_step_object_def refs_given_out_def)
    show "list_all (\<lambda>r. r < next_ref (snd (add_step clock s selected par)))
            (list_at (snd (add_step clock s selected par)) (current_workflow (snd (add_step clock s selected par))))"
      using assms(1)
      by (auto simp: add_step_def new_step_object_def refs_given_out_def list_at_def list_all_iff
               intro: less_SucI)
    fix r x assume "r < next_ref s" "x \<in> set (list_at (snd (add_step clock s selected par)) r)"
    then show "x \<in> set (list_at s r) \<or> x < next_ref (snd (add_step clock s selected par))"
      by (auto simp: add_step_def new_step_object_def list_at_def split: if_splits)
  qed
  ultimately show ?thesis by simp
qed

lemma new_list_invariants:
  assumes "refs_given_out s" and "list_all (\<lambda>r. r < next_ref s) refs"
  shows "refs_given_out ((snd (new_list_object refs s))\<lparr>current_workflow := fst (new_list_object refs s)\<rparr>)"
proof (rule refs_given_out_step[OF assms(1)])
  let ?t = "(snd (new_list_object refs s))\<lparr>current_workflow := fst (new_list_object refs s)\<rparr>"
  show "workflows ?t = workflows s" by (simp add: new_list_object_def)
  show "next_ref s \<le> next_ref ?t" by (simp add: new_list_object_def)
  show "current_workflow ?t < next_ref ?t" by (simp add: new_list_object_def)
  show "list_all (\<lambda>r. r < next_ref ?t) (list_at ?t (current_workflow ?t))"
    using assms(2) by (auto simp: new_list_object_def list_at_def list_all_iff intro: less_SucI)
  fix r x assume "r < next_ref s" "x \<in> set (list_at ?t r)"
  then show "x \<in> set (list_at s r) \<or> x < next_ref ?t"
    by (auto simp: new_list_object_def list_at_def split: if_splits)
qed

lemma clear_invariants:
  assumes "refs_given_out s" and "keyed_by_name s"
  shows "refs_given_out (clear_current_workflow s) \<and> keyed_by_name (clear_current_workflow s)"
proof -
  have "keyed_by_name (clear_current_workflow s)"
    using assms(2) by (simp add: keyed_by_name_def clear_current_workflow_def new_list_object_def)
  moreover have "refs_given_out (clear_current_workflow s)"
    using new_list_invariants[OF assms(1), of "[]"]
    by (simp add: clear_current_workflow_def case_prod_beta)
  ultimately show ?thesis by simp
qed

lemma load_workflow_invariants:
  assumes "refs_given_out s" and "keyed_by_name s"
  shows "refs_given_out (snd (load_workflow s nm)) \<and> keyed_by_name (snd (load_workflow s nm))"
proof (cases "map_of (workflows s) nm")
  case None
  with assms show ?thesis by (simp add: load_workflow_def)
next
  case (Some w)
  from map_of_list_all[OF _ Some] assms(1)
  have "list_all (\<lambda>r. r < next_ref s) (list_at s (steps w))"
    by (auto simp: refs_given_out_def)
  from new_list_invariants[OF assms(1) this]
  have "refs_given_out (snd (load_workflow s nm))"
    by (simp add: load_workflow_def Some case_prod_beta)
  moreover have "keyed_by_name (snd (load_workflow s nm))"
    using assms(2) by (simp add: keyed_by_name_def load_workflow_def new_list_object_def Some)
  ultimately show ?thesis by simp
qed

lemma save_workflows_invariants:
  assumes "refs_given_out s" and "keyed_by_name s"
  shows "refs_given_out (snd (save_workflows writable s)) \<and> keyed_by_name (snd (save_workflows writable s))"
  using assms
  by (auto simp: refs_given_out_def keyed_by_name_def save_workflows_def list_at_def)

lemma save_current_workflow_invariants:
  assumes "refs_given_out s" and "keyed_by_name s"
  shows "refs_given_out (snd (save_current_workflow class_time writable s nm descr)) \<and>
         keyed_by_name (snd (save_current_workflow class_time writable s nm descr))"
proof (cases "nm = [] \<or> list_at s (current_workflow s) = []")
  case True
  with assms show ?thesis by (simp add: save_current_workflow_def)
next
  case False
  let ?w = "\<lparr>name = nm, steps = next_ref s, description = descr,
             created_at = class_time, modified_at = class_time\<rparr>"
  let ?s1 = "snd (new_list_object (list_at s (current_workflow s)) s)"
  let ?t = "?s1\<lparr>workflows := AList.update nm ?w (workflows ?s1)\<rparr>"
  have res: "snd (save_current_workflow class_time writable s nm descr) = snd (save_workflows writable ?t)"
    using False by (simp add: save_current_workflow_def new_list_object_def)
  have k: "keyed_by_name ?t"
    using assms(2) keyed_update[of "workflows s" ?w nm]
    by (simp add: keyed_by_name_def new_list_object_def)
  from assms(1) have d: "list_all (\<lambda>r. r < next_ref s) (list_at s (current_workflow s))"
    and c: "current_workflow s < next_ref s"
    and st: "list_all (\<lambda>(k, w). steps w < next_ref s \<and> list_all (\<lambda>r. r < next_ref s) (list_at s (steps w)))
        (workflows s)"
    by (simp_all add: refs_given_out_def)
  have la: "\<And>r. list_at ?t r = (if r = next_ref s then list_at s (current_workflow s) else list_at s r)"
    by (simp add: new_list_object_def list_at_def)
  have cw: "current_workflow ?t = current_workflow s" and nr: "next_ref ?t = Suc (next_ref s)"
    by (simp_all add: new_list_object_def)
  have g: "refs_given_out ?t"
    unfolding refs_given_out_def
  proof (intro conjI)
    show "current_workflow ?t < next_ref ?t" using c by (simp add: cw nr)
    have "list_at ?t (current_workflow s) = list_at s (current_workflow s)"
      using c by (simp only: la) simp
    then show "list_all (\<lambda>r. r < next_ref ?t) (list_at ?t (current_workflow ?t))"
      using d by (auto simp: cw nr list_all_iff intro: less_SucI)
    show "list_all (\<lambda>(k, w). steps w < next_ref ?t \<and> list_all (\<lambda>r. r < next_ref ?t) (list_at ?t (steps w)))
            (workflows ?t)"
      unfolding list_all_iff
    proof
      fix kw assume kw: "kw \<in> set (workflows ?t)"
      obtain k v where p: "kw = (k, v)" by (cases kw) auto
      from kw p have "(k, v) \<in> set (AList.update nm ?w (workflows s))"
        by (simp add: new_list_object_def)
      from in_set_update_key[OF this] consider "v = ?w" | "(k, v) \<in> set (workflows s)" by auto
      then show "case kw of (k, w) \<Rightarrow> steps w < next_ref ?t \<and> (\<forall>r\<in>set (list_at ?t (steps w)). r < next_ref ?t)"
      proof cases
        case 1
        have "list_at ?t (next_ref s) = list_at s (current_workflow s)" by (simp only: la) simp
        with 1 show ?thesis using d by (auto simp: p nr list_all_iff intro: less_SucI)
      next
        case 2
        with st have v: "steps v < next_ref s" "\<forall>r\<in>set (list_at s (steps v)). r < next_ref s"
          by (auto simp: list_all_iff)
        then have "list_at ?t (steps v) = list_at s (steps v)" by (simp only: la) simp
        with v show ?thesis by (auto simp: p nr intro: less_SucI)
      qed
    qed
  qed
  from save_workflows_invariants[OF g k] show ?thesis by (simp only: res)
qed

text \<open>Every state the code builds is keyed by name and holds only references given out.\<close>

lemma reachable_invariants:
  "reachable s \<Longrightarrow> refs_given_out s \<and> keyed_by_name s"
proof (induction rule: reachable.induct)
  case (at_start clock content)
  show ?case by (rule init_invariants)
next
  case (after_add_step s clock selected par)
  then show ?case by (simp add: add_step_invariants)
next
  case (after_save_current s class_time writable nm descr)
  then show ?case by (simp add: save_current_workflow_invariants)
next
  case (after_load s nm)
  then show ?case by (simp add: load_workflow_invariants)
next
  case (after_clear s)
  then show ?case by (simp add: clear_invariants)
next
  case (after_save s writable)
  then show ?case by (simp add: save_workflows_invariants)
qed

subsection \<open>The example store\<close>

lemmas store_ops = demo_store_def save_current_workflow_def add_step_def init_WorkflowManager_def
  load_workflows_def new_step_object_def new_list_object_def save_workflows_def list_at_def step_at_def
  load_workflow_def clear_current_workflow_def workflow_steps_def stored_workflow_def

lemma demo_reachable: "reachable demo_store"
  unfolding demo_store_def by (intro reachable.intros)

lemma demo_W: "stored_workflow demo_store ''W'' =
   Some (''W'', [\<lparr>assistants = [''a'', ''b''], is_parallel = False, step_id = ''c''\<rparr>], ''demo'', ''t0'', ''t0'')"
  by (simp add: store_ops)

subsection \<open>The round trip\<close>





subsection \<open>The draft and the stored workflows\<close>

text \<open>
  C5, as amended. After a stored workflow has been loaded into the draft, in a state the
  code builds, the changes of the draft that the store offers (appending steps with
  \<open>add_step\<close>, clearing with \<open>clear_current_workflow\<close>, in any number and order) leave
  every stored workflow as it was: its fields and the values of its steps. The draft is
  a new list, apart from the list of the stored workflow, and reads as the steps of that
  workflow; the step objects in it are the stored ones.
\<close>

theorem draft_changes_keep_stored_workflows:
  assumes "reachable s"
      and "load_workflow s nm = (True, s1)"
  shows "stored_workflow (change_draft_all clock changes s1) k = stored_workflow s k \<and>
         (\<exists>w. map_of (workflows s) nm = Some w \<and>
              map (step_at s1) (list_at s1 (current_workflow s1)) = workflow_steps s w \<and>
              current_workflow s1 \<noteq> steps w)"
proof -
  from reachable_invariants[OF assms(1)] have inv: "refs_given_out s" by simp
  from load_workflow_draft_apart[OF assms(2)] have a: "draft_apart s s1" .
  from draft_apart_stored[OF inv change_draft_all_apart[OF a]]
  have 1: "stored_workflow (change_draft_all clock changes s1) k = stored_workflow s k" .
  from assms(2) obtain w where w: "map_of (workflows s) nm = Some w"
    and s1: "s1 = (snd (new_list_object (list_at s (steps w)) s))\<lparr>current_workflow := next_ref s\<rparr>"
    by (auto simp: load_workflow_def new_list_object_def split: option.splits)
  from map_of_list_all[OF _ w] inv
  have g: "steps w < next_ref s" "list_all (\<lambda>r. r < next_ref s) (list_at s (steps w))"
    by (auto simp: refs_given_out_def)
  have "map (step_at s1) (list_at s1 (current_workflow s1)) = workflow_steps s w"
    using g(2) by (auto simp: s1 new_list_object_def list_at_def step_at_def workflow_steps_def list_all_iff)
  moreover have "current_workflow s1 \<noteq> steps w"
    using g(1) by (simp add: s1 new_list_object_def)
  ultimately show ?thesis using 1 w by blast
qed

theorem draft_changes_keep_stored_workflows_witness:
  "stored_workflow
     (change_draft_all (\<lambda>r. ''c'') [AddStep [''x''] True, ClearDraft, AddStep [''y''] False]
        (snd (load_workflow demo_store ''W''))) ''W'' =
   Some (''W'', [\<lparr>assistants = [''a'', ''b''], is_parallel = False, step_id = ''c''\<rparr>], ''demo'', ''t0'', ''t0'')"
proof -
  obtain s1 where l: "load_workflow demo_store ''W'' = (True, s1)"
    by (simp add: store_ops)
  from draft_changes_keep_stored_workflows[OF demo_reachable l,
      of "\<lambda>r. ''c''" "[AddStep [''x''] True, ClearDraft, AddStep [''y''] False]" "''W''"]
  have "stored_workflow
     (change_draft_all (\<lambda>r. ''c'') [AddStep [''x''] True, ClearDraft, AddStep [''y''] False] s1) ''W'' =
        stored_workflow demo_store ''W''"
    by (rule conjunct1)
  then show ?thesis by (simp only: l snd_conv demo_W)
qed

text \<open>
  C5 as stated fails for a change of a step the draft contains: the draft loaded from
  \<open>W\<close> holds the step objects of \<open>W\<close>, so setting \<open>is_parallel\<close> of the first step of
  the draft changes the first step of the stored \<open>W\<close>.
\<close>

theorem draft_shares_steps_counterexample:
  "stored_workflow (snd (load_workflow demo_store ''W'')) ''W'' =
     Some (''W'', [\<lparr>assistants = [''a'', ''b''], is_parallel = False, step_id = ''c''\<rparr>], ''demo'', ''t0'', ''t0'') \<and>
   stored_workflow (set_is_parallel 0 True (snd (load_workflow demo_store ''W''))) ''W'' =
     Some (''W'', [\<lparr>assistants = [''a'', ''b''], is_parallel = True, step_id = ''c''\<rparr>], ''demo'', ''t0'', ''t0'')"
  by (simp add: store_ops set_is_parallel_def)


end
